theory Spec2Isabelle
  imports Complex_Main
begin

section \<open>Strings, built-ins and constants of display.py\<close>

text \<open>
  A Python \<open>str\<close> is modelled as a \<open>string\<close>, one \<open>char\<close> per code point. The model
  covers lines whose code points are below 256; every character the program inspects
  (ESC, \<open>[\<close>, \<open>m\<close>, \<open>;\<close>, newline, signs, digits) is in that range.
  A Python \<open>float\<close> is modelled as an exact \<open>rat\<close>: rounding is not modelled. At
  the scale 2.0 the products and quotients that the resampler computes are exact in binary
  floating point for all sizes below \<open>2^52\<close>, so there the model computes what the
  program computes.
\<close>

datatype py_error = IndexError

definition ESC :: char where
  "ESC = CHR 0x1B"

definition NEWLINE :: char where
  "NEWLINE = CHR 0x0A"

definition RESET :: string where
  "RESET = ESC # ''[0m''"

definition HIDE_CURSOR :: string where
  "HIDE_CURSOR = ESC # ''[?25l''"

definition SHOW_CURSOR :: string where
  "SHOW_CURSOR = ESC # ''[?25h''"

definition CLS :: string where
  "CLS = ESC # ''[2J''"

definition HOME :: string where
  "HOME = ESC # ''[H''"

text \<open>Subscription \<open>xs[i]\<close> of a Python list: indices from \<open>-len(xs)\<close> to \<open>-1\<close> address the
  list from its end; outside \<open>-len(xs) .. len(xs) - 1\<close> the subscription raises IndexError.\<close>

definition py_index :: "'a list \<Rightarrow> int \<Rightarrow> py_error + 'a" where
  "py_index xs i =
     (if 0 \<le> i \<and> i < int (length xs) then Inr (xs ! nat i)
      else if i < 0 \<and> - int (length xs) \<le> i then Inr (xs ! nat (int (length xs) + i))
      else Inl IndexError)"

text \<open>\<open>s.split(sep)\<close> for a one-character separator: always at least one field.\<close>

fun py_split :: "char \<Rightarrow> string \<Rightarrow> string list" where
  "py_split sep [] = [[]]"
| "py_split sep (c # cs) =
     (if c = sep then [] # py_split sep cs
      else (case py_split sep cs of
              [] \<Rightarrow> [[c]]
            | f # fs \<Rightarrow> (c # f) # fs))"

text \<open>
  The built-in \<open>int(s)\<close> on a string, base 10: optional surrounding whitespace, an optional
  sign, then decimal digits in which single underscores may separate digits. Anything else
  raises ValueError, which is \<open>None\<close> here. Below code point 256 the whitespace characters
  that \<open>int\<close> strips are TAB, LF, VT, FF, CR, space, NEL (0x85) and NBSP (0xA0), and the
  only decimal digits are \<open>0\<close> to \<open>9\<close>. The interpreter's configurable limit on the number
  of digits is not modelled.
\<close>

definition is_digit :: "char \<Rightarrow> bool" where
  "is_digit c = (c \<in> set ''0123456789'')"

definition digit_val :: "char \<Rightarrow> nat" where
  "digit_val c = (of_char c :: nat) - 48"

definition int_space :: "char \<Rightarrow> bool" where
  "int_space c = (c \<in> {CHR 0x09, CHR 0x0A, CHR 0x0B, CHR 0x0C, CHR 0x0D, CHR 0x20, CHR 0x85, CHR 0xA0})"

definition digit_or_us :: "char \<Rightarrow> bool" where
  "digit_or_us c = (is_digit c \<or> c = CHR ''_'')"

fun double_us :: "string \<Rightarrow> bool" where
  "double_us (a # b # cs) = ((a = CHR ''_'' \<and> b = CHR ''_'') \<or> double_us (b # cs))"
| "double_us _ = False"

definition digits_value :: "string \<Rightarrow> nat" where
  "digits_value ds = foldl (\<lambda>a c. 10 * a + digit_val c) 0 ds"

definition py_int :: "string \<Rightarrow> int option" where
  "py_int s =
     (let s1 = dropWhile int_space s;
          neg = (s1 \<noteq> [] \<and> hd s1 = CHR ''-'');
          s2 = (if s1 \<noteq> [] \<and> (hd s1 = CHR ''+'' \<or> hd s1 = CHR ''-'') then tl s1 else s1);
          body = takeWhile digit_or_us s2;
          trail = dropWhile digit_or_us s2
      in if body = [] \<or> hd body = CHR ''_'' \<or> last body = CHR ''_'' \<or> double_us body
            \<or> \<not> list_all int_space trail
         then None
         else (let v = int (digits_value (filter is_digit body))
               in Some (if neg then - v else v)))"

text \<open>\<open>str(n)\<close> of an integer, as the f-strings of \<open>color_code_from_fg\<close> format it
  (again without the interpreter's limit on the number of digits).\<close>

definition digit_char :: "nat \<Rightarrow> char" where
  "digit_char d = ''0123456789'' ! d"

function dec_digits :: "nat \<Rightarrow> string" where
  "dec_digits n = (if n < 10 then [digit_char n] else dec_digits (n div 10) @ [digit_char (n mod 10)])"
  by pat_completeness auto
termination
  by (relation "measure id") auto

declare dec_digits.simps [simp del]

definition py_str :: "int \<Rightarrow> string" where
  "py_str i = (if i < 0 then CHR ''-'' # dec_digits (nat (- i)) else dec_digits (nat i))"

section \<open>The styled-line decoder: parse_ansi_line\<close>

text \<open>A foreground colour is \<open>None\<close>, \<open>('truecolor', r, g, b)\<close> or \<open>('ansi256', idx)\<close>; the
  components are Python integers.\<close>

datatype fg = Truecolor int int int | Ansi256 int

text \<open>The \<open>if\<close>/\<open>elif\<close> chain on \<open>parts\<close> (lines 44 to 57): the new value of \<open>active\<close>.
  A ValueError of \<open>int\<close> is caught and leaves \<open>active\<close> as it was.\<close>

definition apply_sgr :: "string list \<Rightarrow> fg option \<Rightarrow> fg option" where
  "apply_sgr parts active =
     (if parts = [''0''] then None
      else if length parts \<ge> 3 \<and> parts ! 0 = ''38'' \<and> parts ! 1 = ''5'' then
        (case py_int (parts ! 2) of
           None \<Rightarrow> active
         | Some idx \<Rightarrow> Some (Ansi256 idx))
      else if length parts \<ge> 5 \<and> parts ! 0 = ''38'' \<and> parts ! 1 = ''2'' then
        (case py_int (parts ! 2) of
           None \<Rightarrow> active
         | Some r \<Rightarrow>
            (case py_int (parts ! 3) of
               None \<Rightarrow> active
             | Some g \<Rightarrow>
                (case py_int (parts ! 4) of
                   None \<Rightarrow> active
                 | Some b \<Rightarrow> Some (Truecolor r g b))))
      else active)"

text \<open>\<open>parts = params.split(";") if params else []\<close>\<close>

definition sgr_parts :: "string \<Rightarrow> string list" where
  "sgr_parts params = (if params \<noteq> [] then py_split (CHR '';'') params else [])"

definition not_m :: "char \<Rightarrow> bool" where
  "not_m c = (c \<noteq> CHR ''m'')"

text \<open>
  The \<open>while i < n\<close> loop (the source's \<open>ln\<close> is \<open>line\<close> here). The first argument is the unread rest \<open>ln[i:]\<close> of the line.
  At an introducer, \<open>takeWhile not_m\<close> is \<open>ln[i+2:j]\<close> and \<open>dropWhile not_m\<close> is \<open>ln[j:]\<close>,
  which is empty exactly when \<open>j >= n\<close>, where the loop breaks.
\<close>

function parse_loop :: "string \<Rightarrow> fg option \<Rightarrow> string \<Rightarrow> fg option list \<Rightarrow> string \<times> fg option list" where
  "parse_loop [] active chars fgs = (chars, fgs)"
| "parse_loop (ch # rest) active chars fgs =
     (if ch = ESC \<and> rest \<noteq> [] \<and> hd rest = CHR ''['' then
        (if dropWhile not_m (tl rest) = [] then (chars, fgs)
         else parse_loop (tl (dropWhile not_m (tl rest)))
                (apply_sgr (sgr_parts (takeWhile not_m (tl rest))) active) chars fgs)
      else if ch \<noteq> NEWLINE then parse_loop rest active (chars @ [ch]) (fgs @ [active])
      else parse_loop rest active chars fgs)"
  by pat_completeness auto
termination
proof (relation "measure (\<lambda>(line, active, chars, fgs). length line)")
  show "wf (measure (\<lambda>(line, active, chars, fgs). length line))" by simp
next
  fix ch :: char and rest :: string and active :: "fg option" and chars :: string
    and fgs :: "fg option list"
  have "length (dropWhile not_m (tl rest)) \<le> length (tl rest)"
    by (rule length_dropWhile_le)
  then show "((tl (dropWhile not_m (tl rest)),
                apply_sgr (sgr_parts (takeWhile not_m (tl rest))) active, chars, fgs),
               ch # rest, active, chars, fgs)
             \<in> measure (\<lambda>(line, active, chars, fgs). length line)"
    by simp
qed simp_all

declare parse_loop.simps [simp del]

definition parse_ansi_line :: "string \<Rightarrow> string \<times> fg option list" where
  "parse_ansi_line line = parse_loop line None [] []"

section \<open>The colour encoder: color_code_from_fg\<close>

definition color_code_from_fg :: "fg option \<Rightarrow> string" where
  "color_code_from_fg c =
     (case c of
        None \<Rightarrow> ''''
      | Some (Truecolor r g b) \<Rightarrow>
          ESC # ''[38;2;'' @ py_str r @ '';'' @ py_str g @ '';'' @ py_str b @ ''m''
      | Some (Ansi256 idx) \<Rightarrow> ESC # ''[38;5;'' @ py_str idx @ ''m'')"

section \<open>The escape sequences of a line and the range of a colour\<close>

text \<open>The parameter lists of the terminated sequences that the loop consumes, in order:
  the same scan as \<open>parse_loop\<close>, keeping each \<open>parts\<close> instead of the glyphs.\<close>

function sgr_seqs :: "string \<Rightarrow> string list list" where
  "sgr_seqs [] = []"
| "sgr_seqs (ch # rest) =
     (if ch = ESC \<and> rest \<noteq> [] \<and> hd rest = CHR ''['' then
        (if dropWhile not_m (tl rest) = [] then []
         else sgr_parts (takeWhile not_m (tl rest)) # sgr_seqs (tl (dropWhile not_m (tl rest))))
      else sgr_seqs rest)"
  by pat_completeness auto
termination
proof (relation "measure length")
  show "wf (measure (length :: string \<Rightarrow> nat))" by simp
next
  fix ch :: char and rest :: string
  have "length (dropWhile not_m (tl rest)) \<le> length (tl rest)"
    by (rule length_dropWhile_le)
  then show "(tl (dropWhile not_m (tl rest)), ch # rest) \<in> measure length"
    by simp
qed simp_all

declare sgr_seqs.simps [simp del]

definition fg_in_range :: "fg option \<Rightarrow> bool" where
  "fg_in_range c =
     (case c of
        None \<Rightarrow> True
      | Some (Truecolor r g b) \<Rightarrow> 0 \<le> r \<and> r \<le> 255 \<and> 0 \<le> g \<and> g \<le> 255 \<and> 0 \<le> b \<and> b \<le> 255
      | Some (Ansi256 idx) \<Rightarrow> 0 \<le> idx \<and> idx \<le> 255)"

text \<open>A field of a parameter list is in range when \<open>int\<close> rejects it or reads a value
  from 0 to 255.\<close>

definition field_ok :: "string \<Rightarrow> bool" where
  "field_ok p = (case py_int p of None \<Rightarrow> True | Some v \<Rightarrow> 0 \<le> v \<and> v \<le> 255)"

section \<open>The frame resampler: scale_lines\<close>

text \<open>
  The list \<open>parts\<close> of a target row holds escape codes and single glyphs; the model keeps
  the two apart by a tag, which \<open>"".join(parts)\<close> forgets.
\<close>

datatype part = Code string | Glyph char

fun part_text :: "part \<Rightarrow> string" where
  "part_text (Code s) = s"
| "part_text (Glyph c) = [c]"

definition join_parts :: "part list \<Rightarrow> string" where
  "join_parts parts = concat (map part_text parts)"

text \<open>\<open>int(x)\<close> of a float: truncation towards zero.\<close>

definition float_to_int :: "rat \<Rightarrow> int" where
  "float_to_int x = (if 0 \<le> x then \<lfloor>x\<rfloor> else - \<lfloor>- x\<rfloor>)"

text \<open>Lines 80 to 88. \<open>tsize\<close> is what \<open>shutil.get_terminal_size\<close> returns:
  (columns, lines).\<close>

definition effective_scale :: "int \<Rightarrow> int \<Rightarrow> rat \<Rightarrow> bool \<Rightarrow> int \<times> int \<Rightarrow> rat" where
  "effective_scale width height scale fit_to_terminal tsize =
     (if fit_to_terminal then
        (let s_w = of_int (fst tsize) / of_int (max 1 width);
             s_h = of_int (max 1 (snd tsize - 1)) / of_int (max 1 height);
             s = min s_w s_h
         in if s \<le> 0 then 1 else s)
      else max (1 / 100) scale)"

text \<open>The inner loop \<open>for co in range(tgt_w_row)\<close> (lines 115 to 122), over the list of
  columns still to do.\<close>

fun scale_cols ::
  "rat \<Rightarrow> string \<Rightarrow> fg option list \<Rightarrow> nat list \<Rightarrow> part list \<Rightarrow> fg option \<Rightarrow> py_error + part list" where
  "scale_cols s chars_row fgs_row [] parts prev_fg = Inr parts"
| "scale_cols s chars_row fgs_row (co # cols) parts prev_fg =
     (let cs = min (int (length chars_row) - 1) (float_to_int (of_nat co / s)) in
      case py_index fgs_row cs of
        Inl e \<Rightarrow> Inl e
      | Inr fg \<Rightarrow>
         (case py_index chars_row cs of
            Inl e \<Rightarrow> Inl e
          | Inr ch \<Rightarrow>
             (if fg \<noteq> prev_fg then
                scale_cols s chars_row fgs_row cols
                  (parts @ [Code (if fg = None then RESET else color_code_from_fg fg), Glyph ch]) fg
              else scale_cols s chars_row fgs_row cols (parts @ [Glyph ch]) prev_fg)))"

text \<open>The outer loop \<open>for ro in range(tgt_h)\<close> (lines 105 to 124).\<close>

fun scale_rows ::
  "rat \<Rightarrow> (string \<times> fg option list) list \<Rightarrow> int \<Rightarrow> nat list \<Rightarrow> string list
     \<Rightarrow> py_error + string list" where
  "scale_rows s parsed src_h [] new_lines = Inr new_lines"
| "scale_rows s parsed src_h (ro # ros) new_lines =
     (let rs = min (src_h - 1) (float_to_int (of_nat ro / s)) in
      case py_index parsed rs of
        Inl e \<Rightarrow> Inl e
      | Inr row \<Rightarrow>
         (let chars_row = fst row; fgs_row = snd row; row_w = length chars_row in
          if row_w = 0 then scale_rows s parsed src_h ros (new_lines @ [RESET])
          else
            (let tgt_w_row = max 1 (float_to_int (of_nat row_w * s)) in
             case scale_cols s chars_row fgs_row [0..<nat tgt_w_row] [] None of
               Inl e \<Rightarrow> Inl e
             | Inr parts \<Rightarrow>
                 scale_rows s parsed src_h ros
                   (new_lines @ [join_parts (parts @ [Code RESET])]))))"

definition scale_lines ::
  "string list \<Rightarrow> int \<Rightarrow> int \<Rightarrow> rat \<Rightarrow> bool \<Rightarrow> int \<times> int \<Rightarrow> py_error + string list" where
  "scale_lines lines width height scale fit_to_terminal tsize =
     (let s = effective_scale width height scale fit_to_terminal tsize in
      if \<bar>s - 1\<bar> < 1 / 1000000 then Inr lines
      else
        (let parsed = map parse_ansi_line lines;
             src_h0 = int (length parsed);
             src_w0 = (if parsed \<noteq> [] then int (length (fst (parsed ! 0))) else 0);
             src_w = (if src_w0 = 0 then max 1 width else src_w0);
             src_h = (if src_h0 = 0 then max 1 height else src_h0);
             tgt_w = max 1 (float_to_int (of_int src_w * s));
             tgt_h = max 1 (float_to_int (of_int src_h * s))
         in scale_rows s parsed src_h [0..<nat tgt_h] []))"

text \<open>
  The rest of this section names what the loops compute, for the statements below:
  the source index \<open>min(n - 1, int(k / s))\<close> of a target index \<open>k\<close>, the source cell of a
  target column, what the inner loop appends for a list of cells given the colour emitted
  last, the text of a target row, the glyphs and the codes of a list of parts, and the
  number of colour runs of a row.
\<close>

definition src_index :: "rat \<Rightarrow> nat \<Rightarrow> nat \<Rightarrow> int" where
  "src_index s n k = min (int n - 1) (float_to_int (of_nat k / s))"

definition cell_at :: "rat \<Rightarrow> string \<Rightarrow> fg option list \<Rightarrow> nat \<Rightarrow> fg option \<times> char" where
  "cell_at s chars_row fgs_row co =
     (fgs_row ! nat (src_index s (length chars_row) co),
      chars_row ! nat (src_index s (length chars_row) co))"

fun emit_cells :: "fg option \<Rightarrow> (fg option \<times> char) list \<Rightarrow> part list" where
  "emit_cells prev [] = []"
| "emit_cells prev (cell # cells) =
     (if fst cell \<noteq> prev
      then [Code (if fst cell = None then RESET else color_code_from_fg (fst cell)), Glyph (snd cell)]
      else [Glyph (snd cell)]) @ emit_cells (fst cell) cells"

definition row_parts :: "rat \<Rightarrow> string \<times> fg option list \<Rightarrow> part list" where
  "row_parts s row =
     emit_cells None
       (map (cell_at s (fst row) (snd row))
          [0..<nat (max 1 (float_to_int (of_nat (length (fst row)) * s)))])"

definition row_out :: "rat \<Rightarrow> string \<times> fg option list \<Rightarrow> string" where
  "row_out s row =
     (if fst row = [] then RESET else join_parts (row_parts s row @ [Code RESET]))"

fun glyphs_of :: "part list \<Rightarrow> string" where
  "glyphs_of [] = []"
| "glyphs_of (Glyph c # ps) = c # glyphs_of ps"
| "glyphs_of (Code s # ps) = glyphs_of ps"

fun codes_of :: "part list \<Rightarrow> string list" where
  "codes_of [] = []"
| "codes_of (Glyph c # ps) = codes_of ps"
| "codes_of (Code s # ps) = s # codes_of ps"

definition color_runs :: "fg option list \<Rightarrow> nat" where
  "color_runs fgs = length (remdups_adj fgs)"

section \<open>The playback loop of main\<close>

text \<open>
  The \<open>try\<close> block of \<open>main\<close> (lines 160 to 187) with its \<open>except\<close> and \<open>finally\<close>
  clauses. The output stream is the list of operations done on it. The environment is a
  list of signals, one consumed at each step where control can be interrupted: \<open>Sigint\<close>
  raises KeyboardInterrupt there, \<open>Quiet\<close> lets the step run; when the list is used up
  no further interrupt arrives. Signals are delivered during the \<open>try\<close> block; the three
  calls of the \<open>finally\<close> clause run to completion. The clock only decides how long the
  loop sleeps, so a sleep is a step without output. The loop may run forever
  (\<open>--loop\<close>), so it takes fuel: \<open>None\<close> means that the loop is still running.
\<close>

datatype out_op = Write string | Flush

datatype signal = Quiet | Sigint

datatype exn = KeyboardInterrupt | Error py_error

record args =
  args_loop :: bool
  args_scale :: rat
  args_fit :: bool

record pstate =
  pending :: "signal list"
  written :: "out_op list"

type_synonym frame = "string list option"

definition emit :: "out_op \<Rightarrow> pstate \<Rightarrow> exn option \<times> pstate" where
  "emit op st =
     (case pending st of
        [] \<Rightarrow> (None, st\<lparr>written := written st @ [op]\<rparr>)
      | Quiet # sigs \<Rightarrow> (None, st\<lparr>pending := sigs, written := written st @ [op]\<rparr>)
      | Sigint # sigs \<Rightarrow> (Some KeyboardInterrupt, st\<lparr>pending := sigs\<rparr>))"

definition pause :: "pstate \<Rightarrow> exn option \<times> pstate" where
  "pause st =
     (case pending st of
        [] \<Rightarrow> (None, st)
      | Quiet # sigs \<Rightarrow> (None, st\<lparr>pending := sigs\<rparr>)
      | Sigint # sigs \<Rightarrow> (Some KeyboardInterrupt, st\<lparr>pending := sigs\<rparr>))"

text \<open>\<open>for ln in lines: out.write(ln); out.write("\n")\<close>\<close>

fun write_lines :: "string list \<Rightarrow> pstate \<Rightarrow> exn option \<times> pstate" where
  "write_lines [] st = (None, st)"
| "write_lines (line # lns) st =
     (case emit (Write line) st of
        (Some e, st1) \<Rightarrow> (Some e, st1)
      | (None, st1) \<Rightarrow>
         (case emit (Write [NEWLINE]) st1 of
            (Some e, st2) \<Rightarrow> (Some e, st2)
          | (None, st2) \<Rightarrow> write_lines lns st2))"

text \<open>The body of \<open>while True\<close> up to \<open>out.flush()\<close> (lines 164 to 174).\<close>

definition render_frame ::
  "frame list \<Rightarrow> args \<Rightarrow> int \<Rightarrow> int \<Rightarrow> int \<times> int \<Rightarrow> nat \<Rightarrow> pstate \<Rightarrow> exn option \<times> pstate" where
  "render_frame frames a width height tsize idx st =
     (case py_index frames (int idx) of
        Inl e \<Rightarrow> (Some (Error e), st)
      | Inr frame \<Rightarrow>
         (case pause st of
            (Some e, st0) \<Rightarrow> (Some e, st0)
          | (None, st0) \<Rightarrow>
             (case (if args_fit a \<or> \<bar>args_scale a - 1\<bar> > 1 / 1000000
                    then scale_lines (case frame of None \<Rightarrow> [] | Some ls \<Rightarrow> ls)
                           width height (args_scale a) (args_fit a) tsize
                    else Inr (case frame of None \<Rightarrow> [] | Some ls \<Rightarrow> ls)) of
                Inl e \<Rightarrow> (Some (Error e), st0)
              | Inr lines \<Rightarrow>
                 (case emit (Write HOME) st0 of
                    (Some e, st1) \<Rightarrow> (Some e, st1)
                  | (None, st1) \<Rightarrow>
                     (case write_lines lines st1 of
                        (Some e, st2) \<Rightarrow> (Some e, st2)
                      | (None, st2) \<Rightarrow> emit Flush st2)))))"

text \<open>The \<open>while True\<close> loop: render, advance \<open>idx\<close>, wrap around or break, sleep.\<close>

fun play_loop ::
  "nat \<Rightarrow> frame list \<Rightarrow> args \<Rightarrow> int \<Rightarrow> int \<Rightarrow> int \<times> int \<Rightarrow> nat \<Rightarrow> pstate
     \<Rightarrow> (exn option \<times> pstate) option" where
  "play_loop 0 frames a width height tsize idx st = None"
| "play_loop (Suc fuel) frames a width height tsize idx st =
     (case render_frame frames a width height tsize idx st of
        (Some e, st1) \<Rightarrow> Some (Some e, st1)
      | (None, st1) \<Rightarrow>
         (if idx + 1 \<ge> length frames \<and> \<not> args_loop a then Some (None, st1)
          else
            (case pause st1 of
               (Some e, st2) \<Rightarrow> Some (Some e, st2)
             | (None, st2) \<Rightarrow>
                 play_loop fuel frames a width height tsize
                   (if idx + 1 \<ge> length frames then 0 else idx + 1) st2)))"

text \<open>\<open>try: ... except KeyboardInterrupt: pass; finally: ...\<close>. The result is the exception
  that leaves \<open>main\<close>, if any, and everything done on the output stream.\<close>

definition playback ::
  "nat \<Rightarrow> frame list \<Rightarrow> args \<Rightarrow> int \<Rightarrow> int \<Rightarrow> int \<times> int \<Rightarrow> signal list
     \<Rightarrow> (exn option \<times> out_op list) option" where
  "playback fuel frames a width height tsize sigs =
     (case play_loop fuel frames a width height tsize 0 \<lparr>pending = sigs, written = []\<rparr> of
        None \<Rightarrow> None
      | Some (r, st) \<Rightarrow>
          Some (if r = Some KeyboardInterrupt then None else r,
                written st @ [Write RESET, Write SHOW_CURSOR, Flush]))"

section \<open>Properties of the decoder\<close>

lemma ESC_distinct [simp]:
  "ESC \<noteq> NEWLINE" "NEWLINE \<noteq> ESC" "ESC \<noteq> CHR ''[''" "ESC \<noteq> CHR ''m''"
  by (simp_all add: ESC_def NEWLINE_def)

lemma takeWhile_not_m_seq: "CHR ''m'' \<notin> set p \<Longrightarrow> takeWhile not_m (p @ CHR ''m'' # r) = p"
  by (induction p) (auto simp: not_m_def)

lemma dropWhile_not_m_seq: "CHR ''m'' \<notin> set p \<Longrightarrow> dropWhile not_m (p @ CHR ''m'' # r) = CHR ''m'' # r"
  by (induction p) (auto simp: not_m_def)

lemma dropWhile_not_m_none: "CHR ''m'' \<notin> set p \<Longrightarrow> dropWhile not_m p = []"
  by (induction p) (auto simp: not_m_def)

lemma parse_loop_glyph:
  assumes "ch \<noteq> ESC \<or> rest = [] \<or> hd rest \<noteq> CHR ''[''" and "ch \<noteq> NEWLINE"
  shows "parse_loop (ch # rest) active chars fgs =
         parse_loop rest active (chars @ [ch]) (fgs @ [active])"
  using assms by (subst parse_loop.simps) auto

lemma parse_loop_newline:
  "parse_loop (NEWLINE # rest) active chars fgs = parse_loop rest active chars fgs"
  by (subst parse_loop.simps) (simp add: NEWLINE_def ESC_def)

lemma parse_loop_break:
  assumes "dropWhile not_m body = []"
  shows "parse_loop (ESC # CHR ''['' # body) active chars fgs = (chars, fgs)"
  using assms by (subst parse_loop.simps) simp

lemma parse_loop_intro:
  assumes "dropWhile not_m body \<noteq> []"
  shows "parse_loop (ESC # CHR ''['' # body) active chars fgs =
         parse_loop (tl (dropWhile not_m body))
           (apply_sgr (sgr_parts (takeWhile not_m body)) active) chars fgs"
  using assms by (subst parse_loop.simps) auto

lemma parse_loop_seq:
  assumes "CHR ''m'' \<notin> set params"
  shows "parse_loop (ESC # CHR ''['' # params @ CHR ''m'' # rest) active chars fgs =
         parse_loop rest (apply_sgr (sgr_parts params) active) chars fgs"
  using assms
  by (simp add: parse_loop_intro takeWhile_not_m_seq dropWhile_not_m_seq)

lemma parse_loop_plain:
  "ESC \<notin> set gs \<Longrightarrow> NEWLINE \<notin> set gs \<Longrightarrow>
   parse_loop (gs @ rest) active chars fgs =
   parse_loop rest active (chars @ gs) (fgs @ replicate (length gs) active)"
proof (induction gs arbitrary: chars fgs)
  case Nil
  then show ?case by simp
next
  case (Cons g gs)
  from Cons.prems have g: "g \<noteq> ESC" "g \<noteq> NEWLINE" by auto
  have "parse_loop ((g # gs) @ rest) active chars fgs =
      parse_loop (gs @ rest) active (chars @ [g]) (fgs @ [active])"
    using g by (simp add: parse_loop_glyph)
  also have "\<dots> = parse_loop rest active ((chars @ [g]) @ gs)
      ((fgs @ [active]) @ replicate (length gs) active)"
    using Cons by simp
  finally show ?case by (simp add: replicate_app_Cons_same)
qed

lemma sgr_parts_empty: "apply_sgr (sgr_parts []) active = active"
  by (simp add: sgr_parts_def apply_sgr_def)

lemma sgr_parts_zero: "apply_sgr (sgr_parts ''0'') active = None"
  by (simp add: sgr_parts_def apply_sgr_def)

lemma parse_loop_unterminated_gen:
  "CHR ''m'' \<notin> set rest \<Longrightarrow>
   parse_loop (pre @ ESC # CHR ''['' # rest) active chars fgs = parse_loop pre active chars fgs"
proof (induction pre active chars fgs rule: parse_loop.induct)
  case (1 active chars fgs)
  then show ?case by (simp add: dropWhile_not_m_none parse_loop_break parse_loop.simps(1))
next
  case (2 ch p active chars fgs)
  let ?X = "ESC # CHR ''['' # rest"
  have X: "dropWhile not_m ?X = []"
    using "2.prems" by (simp add: dropWhile_not_m_none ESC_def not_m_def)
  show ?case
  proof (cases "ch = ESC \<and> p \<noteq> [] \<and> hd p = CHR ''[''")
    case intro: True
    then obtain body where p: "p = CHR ''['' # body" and ch: "ch = ESC"
      by (cases p) auto
    show ?thesis
    proof (cases "dropWhile not_m body = []")
      case True
      then have "\<And>x. x \<in> set body \<Longrightarrow> not_m x"
        by (simp add: dropWhile_eq_Nil_conv)
      then have "dropWhile not_m (body @ ?X) = dropWhile not_m ?X"
        by (rule dropWhile_append2)
      then have "dropWhile not_m (body @ ?X) = []" using X by simp
      then show ?thesis using True p ch by (simp add: parse_loop_break)
    next
      case False
      then obtain x where x: "x \<in> set body" "\<not> not_m x"
        by (auto simp: dropWhile_eq_Nil_conv)
      have d: "dropWhile not_m (body @ ?X) = dropWhile not_m body @ ?X"
        using x by (rule dropWhile_append1)
      have t: "takeWhile not_m (body @ ?X) = takeWhile not_m body"
        using x by (rule takeWhile_append1)
      have ih: "parse_loop (tl (dropWhile not_m body) @ ?X)
              (apply_sgr (sgr_parts (takeWhile not_m body)) active) chars fgs =
            parse_loop (tl (dropWhile not_m body))
              (apply_sgr (sgr_parts (takeWhile not_m body)) active) chars fgs"
        using "2.IH"(1) intro False "2.prems" p by simp
      have "parse_loop ((ch # p) @ ?X) active chars fgs =
            parse_loop (tl (dropWhile not_m body @ ?X))
              (apply_sgr (sgr_parts (takeWhile not_m body)) active) chars fgs"
        using False d t p ch by (simp add: parse_loop_intro)
      also have "tl (dropWhile not_m body @ ?X) = tl (dropWhile not_m body) @ ?X"
        using False by simp
      finally show ?thesis using ih False p ch by (simp add: parse_loop_intro)
    qed
  next
    case False
    have nohd: "ch \<noteq> ESC \<or> p @ ?X = [] \<or> hd (p @ ?X) \<noteq> CHR ''[''"
      using False by (cases p) (auto simp: ESC_def)
    have nohd': "ch \<noteq> ESC \<or> p = [] \<or> hd p \<noteq> CHR ''[''"
      using False by auto
    show ?thesis
    proof (cases "ch = NEWLINE")
      case True
      then show ?thesis using False "2.IH"(3) "2.prems"
        by (simp add: parse_loop_newline)
    next
      case nl: False
      have "parse_loop ((ch # p) @ ?X) active chars fgs =
            parse_loop (p @ ?X) active (chars @ [ch]) (fgs @ [active])"
        using parse_loop_glyph [OF nohd nl] by simp
      also have "\<dots> = parse_loop p active (chars @ [ch]) (fgs @ [active])"
        using False nl "2.IH"(2) "2.prems" by simp
      also have "\<dots> = parse_loop (ch # p) active chars fgs"
        using parse_loop_glyph [OF nohd' nl] by simp
      finally show ?thesis .
    qed
  qed
qed

lemma parse_loop_extends:
  "\<exists>cs fs. parse_loop line active chars fgs = (chars @ cs, fgs @ fs) \<and> length cs = length fs"
proof (induction line active chars fgs rule: parse_loop.induct)
  case (1 active chars fgs)
  then show ?case by (simp add: parse_loop.simps(1))
next
  case (2 ch rest active chars fgs)
  show ?case
  proof (cases "ch = ESC \<and> rest \<noteq> [] \<and> hd rest = CHR ''[''")
    case True
    then obtain body where r: "rest = CHR ''['' # body" and ch: "ch = ESC"
      by (cases rest) auto
    show ?thesis
    proof (cases "dropWhile not_m body = []")
      case True
      then show ?thesis using r ch by (simp add: parse_loop_break)
    next
      case False
      then show ?thesis using "2.IH"(1) r ch by (simp add: parse_loop_intro)
    qed
  next
    case False
    then have nohd: "ch \<noteq> ESC \<or> rest = [] \<or> hd rest \<noteq> CHR ''[''" by auto
    show ?thesis
    proof (cases "ch = NEWLINE")
      case True
      then show ?thesis using False "2.IH"(3) by (simp add: parse_loop_newline)
    next
      case nl: False
      from "2.IH"(2) [OF False nl] obtain cs fs where
        "parse_loop rest active (chars @ [ch]) (fgs @ [active]) = ((chars @ [ch]) @ cs, (fgs @ [active]) @ fs)"
        "length cs = length fs" by blast
      then have "parse_loop (ch # rest) active chars fgs = (chars @ (ch # cs), fgs @ (active # fs)) \<and> length (ch # cs) = length (active # fs)"
        using parse_loop_glyph [OF nohd nl] by simp
      then show ?thesis by blast
    qed
  qed
qed


lemma parse_ansi_line_lengths:
  "length (fst (parse_ansi_line line)) = length (snd (parse_ansi_line line))"
  using parse_loop_extends [of line None "[]" "[]"] by (auto simp: parse_ansi_line_def)

text \<open>
  C2 (corrected). An escape sequence with an empty parameter list, \<open>ESC [ m\<close>, does not
  reset: \<open>parts\<close> is \<open>[]\<close>, no branch of the chain matches, and the glyphs after it keep
  the colour that was active before it. Only the parameter list \<open>["0"]\<close> resets, and then
  every plain glyph after it is paired with \<open>None\<close>. The statement holds from every state
  of the scan: \<open>gs\<close> are the plain glyphs up to the next escape character.
\<close>

theorem empty_params_keep_color:
  assumes "ESC \<notin> set gs" and "NEWLINE \<notin> set gs"
  shows "parse_loop (ESC # ''[m'' @ gs @ rest) active chars fgs =
           parse_loop rest active (chars @ gs) (fgs @ replicate (length gs) active)
       \<and> parse_loop (ESC # ''[0m'' @ gs @ rest) active chars fgs =
           parse_loop rest None (chars @ gs) (fgs @ replicate (length gs) None)"
proof
  have "parse_loop (ESC # CHR ''['' # [] @ CHR ''m'' # (gs @ rest)) active chars fgs =
        parse_loop (gs @ rest) (apply_sgr (sgr_parts []) active) chars fgs"
    by (rule parse_loop_seq) simp
  then show "parse_loop (ESC # ''[m'' @ gs @ rest) active chars fgs =
           parse_loop rest active (chars @ gs) (fgs @ replicate (length gs) active)"
    using assms by (simp add: sgr_parts_empty parse_loop_plain)
next
  have "parse_loop (ESC # CHR ''['' # ''0'' @ CHR ''m'' # (gs @ rest)) active chars fgs =
        parse_loop (gs @ rest) (apply_sgr (sgr_parts ''0'') active) chars fgs"
    by (rule parse_loop_seq) simp
  then show "parse_loop (ESC # ''[0m'' @ gs @ rest) active chars fgs =
           parse_loop rest None (chars @ gs) (fgs @ replicate (length gs) None)"
    using assms by (simp add: sgr_parts_zero parse_loop_plain)
qed


theorem empty_params_keep_color_witness:
  "ESC \<notin> set ''ab'' \<and> NEWLINE \<notin> set ''ab''
   \<and> parse_loop (ESC # ''[m'' @ ''ab'') (Some (Ansi256 1)) [] [] =
       (''ab'', [Some (Ansi256 1), Some (Ansi256 1)])
   \<and> parse_loop (ESC # ''[0m'' @ ''ab'') (Some (Ansi256 1)) [] [] = (''ab'', [None, None])"
proof -
  have h1: "ESC \<notin> set ''ab''" and h2: "NEWLINE \<notin> set ''ab''"
    by (simp_all add: ESC_def NEWLINE_def)
  from empty_params_keep_color [OF h1 h2, of "[]" "Some (Ansi256 1)" "[]" "[]"] h1 h2
  show ?thesis by (simp add: parse_loop.simps(1))
qed

text \<open>C2, as stated, fails: after \<open>ESC [ 38;5;1 m\<close>, the sequence \<open>ESC [ m\<close> leaves the
  glyph \<open>A\<close> with colour \<open>('ansi256', 1)\<close>, not \<open>None\<close>.\<close>

theorem empty_params_reset_counterexample:
  "parse_ansi_line (ESC # ''[38;5;1m'' @ ESC # ''[mA'') = (''A'', [Some (Ansi256 1)])
   \<and> parse_ansi_line (ESC # ''[38;5;1m'' @ ESC # ''[mA'') \<noteq> (''A'', [None])"
  by code_simp

text \<open>
  C4 (corrected). A terminated sequence \<open>ESC [ params m\<close> leaves the active colour as it
  was and contributes no glyph when its parameter list is not empty, is not \<open>["0"]\<close>, does
  not start with \<open>"38", "5", idx\<close> where \<open>int\<close> accepts \<open>idx\<close>, and does not start with
  \<open>"38", "2", r, g, b\<close> where \<open>int\<close> accepts \<open>r\<close>, \<open>g\<close> and \<open>b\<close>. The tests are
  \<open>len(parts) >= 3\<close> and \<open>len(parts) >= 5\<close>: parameters after a recognised prefix are
  allowed and ignored, so such a list sets the colour.
\<close>

theorem unrecognised_params_ignored:
  assumes "CHR ''m'' \<notin> set params"
    and "sgr_parts params \<noteq> []"
    and "sgr_parts params \<noteq> [''0'']"
    and "\<not> (length (sgr_parts params) \<ge> 3 \<and> sgr_parts params ! 0 = ''38''
            \<and> sgr_parts params ! 1 = ''5'' \<and> py_int (sgr_parts params ! 2) \<noteq> None)"
    and "\<not> (length (sgr_parts params) \<ge> 5 \<and> sgr_parts params ! 0 = ''38''
            \<and> sgr_parts params ! 1 = ''2'' \<and> py_int (sgr_parts params ! 2) \<noteq> None
            \<and> py_int (sgr_parts params ! 3) \<noteq> None \<and> py_int (sgr_parts params ! 4) \<noteq> None)"
  shows "parse_loop (ESC # CHR ''['' # params @ CHR ''m'' # rest) active chars fgs =
         parse_loop rest active chars fgs"
proof -
  have "apply_sgr (sgr_parts params) active = active"
    using assms(3-5) unfolding apply_sgr_def
    by (auto split: option.splits)
  then show ?thesis
    using parse_loop_seq [OF assms(1)] by simp
qed


theorem unrecognised_params_ignored_witness:
  "parse_loop (ESC # CHR ''['' # ''38;5;x;9'' @ CHR ''m'' # ''A'') (Some (Ansi256 1)) [] [] =
   (''A'', [Some (Ansi256 1)])"
proof -
  have "parse_loop (ESC # CHR ''['' # ''38;5;x;9'' @ CHR ''m'' # ''A'') (Some (Ansi256 1)) [] [] =
        parse_loop ''A'' (Some (Ansi256 1)) [] []"
    by (rule unrecognised_params_ignored)
       (simp_all add: sgr_parts_def py_int_def int_space_def digit_or_us_def is_digit_def)
  then show ?thesis
    by (simp add: parse_loop.simps ESC_def NEWLINE_def)
qed

text \<open>C4, as stated, fails: the list \<open>["38", "5", "7", "9"]\<close> has an extra parameter
  after the \<open>38;5;idx\<close> form, and it sets the colour to \<open>('ansi256', 7)\<close>.\<close>

theorem trailing_params_counterexample:
  "parse_ansi_line (ESC # ''[38;5;7;9mA'') = (''A'', [Some (Ansi256 7)])
   \<and> parse_ansi_line (ESC # ''[38;5;7;9mA'') \<noteq> (''A'', [None])"
  by code_simp

text \<open>
  C9 (confirmed). When the line has an introducer \<open>ESC [\<close> with no \<open>m\<close> after it, the
  decoder returns what it returns for the part of the line before that introducer: the
  introducer and everything after it are dropped, the glyphs before it are kept.
  \<open>parse_ansi_line\<close> is a total function: no error is raised.
\<close>

theorem unterminated_introducer_stops:
  assumes "CHR ''m'' \<notin> set rest"
  shows "parse_ansi_line (pre @ ESC # CHR ''['' # rest) = parse_ansi_line pre"
  using assms by (simp add: parse_ansi_line_def parse_loop_unterminated_gen)

theorem unterminated_introducer_stops_witness:
  "CHR ''m'' \<notin> set ''38;5;1''
   \<and> parse_ansi_line (''ab'' @ ESC # CHR ''['' # ''38;5;1'') = (''ab'', [None, None])"
proof -
  have h: "CHR ''m'' \<notin> set ''38;5;1''" by simp
  have "parse_ansi_line ''ab'' = (''ab'', [None, None])" by code_simp
  with unterminated_introducer_stops [OF h, of "''ab''"] h show ?thesis by simp
qed

section \<open>Encoder and decoder\<close>

lemma small_cases: "(d::nat) < 10 \<Longrightarrow> d \<in> {0, 1, 2, 3, 4, 5, 6, 7, 8, 9}"
  by auto

lemma digit_char_props:
  assumes "d < 10"
  shows "is_digit (digit_char d)" and "digit_val (digit_char d) = d"
  using small_cases [OF assms]
  by (auto simp: digit_char_def is_digit_def digit_val_def)

lemma is_digit_not_special:
  assumes "is_digit c"
  shows "c \<noteq> CHR ''m''" "c \<noteq> CHR '';''" "c \<noteq> ESC" "c \<noteq> CHR ''_''" "c \<noteq> CHR ''+''"
    "c \<noteq> CHR ''-''" "\<not> int_space c" "c \<noteq> NEWLINE"
  using assms by (auto simp: is_digit_def ESC_def int_space_def NEWLINE_def)

lemma dec_digits_all: "list_all is_digit (dec_digits n) \<and> dec_digits n \<noteq> []"
proof (induction n rule: dec_digits.induct)
  case (1 n)
  show ?case
  proof (cases "n < 10")
    case True
    then show ?thesis by (subst dec_digits.simps, subst dec_digits.simps) (simp add: digit_char_props)
  next
    case False
    then show ?thesis using 1
      by (subst dec_digits.simps, subst (2) dec_digits.simps) (simp add: digit_char_props)
  qed
qed

lemma digits_value_snoc: "digits_value (ds @ [c]) = 10 * digits_value ds + digit_val c"
  by (simp add: digits_value_def)

lemma digits_value_dec: "digits_value (dec_digits n) = n"
proof (induction n rule: dec_digits.induct)
  case (1 n)
  show ?case
  proof (cases "n < 10")
    case True
    then show ?thesis
      by (subst dec_digits.simps) (simp add: digits_value_def digit_char_props)
  next
    case False
    then have "digits_value (dec_digits n) =
        10 * digits_value (dec_digits (n div 10)) + digit_val (digit_char (n mod 10))"
      by (subst dec_digits.simps) (simp add: digits_value_snoc)
    then show ?thesis using 1 False by (simp add: digit_char_props)
  qed
qed

lemma double_us_digits: "list_all is_digit ds \<Longrightarrow> \<not> double_us ds"
  by (induction ds rule: double_us.induct) (auto dest: is_digit_not_special)

lemma py_int_digits:
  assumes "list_all is_digit ds" and "ds \<noteq> []"
  shows "py_int ds = Some (int (digits_value ds))"
    and "py_int (CHR ''-'' # ds) = Some (- int (digits_value ds))"
proof -
  obtain d ds' where ds: "ds = d # ds'" using assms(2) by (cases ds) auto
  have d: "is_digit d" using assms(1) ds by simp
  have all: "\<forall>c\<in>set ds. digit_or_us c"
    using assms(1) by (auto simp: digit_or_us_def list_all_iff)
  have tw: "takeWhile digit_or_us ds = ds" and dw: "dropWhile digit_or_us ds = []"
    using all by (simp_all add: takeWhile_eq_all_conv dropWhile_eq_Nil_conv)
  have flt: "filter is_digit ds = ds"
    using assms(1) by (simp add: list_all_iff)
  have lst: "last ds \<noteq> CHR ''_''"
    using assms is_digit_not_special(4) [of "last ds"] by (auto simp: list_all_iff)
  have sp: "dropWhile int_space ds = ds"
    using d ds is_digit_not_special(7) by simp
  have nodbl: "\<not> double_us ds" using assms(1) by (rule double_us_digits)
  show "py_int ds = Some (int (digits_value ds))"
    unfolding py_int_def Let_def sp
    using tw dw flt lst nodbl assms(2) d ds is_digit_not_special [OF d]
    by simp
  have sp': "dropWhile int_space (CHR ''-'' # ds) = CHR ''-'' # ds"
    by (simp add: int_space_def)
  show "py_int (CHR ''-'' # ds) = Some (- int (digits_value ds))"
    unfolding py_int_def Let_def sp'
    using tw dw flt lst nodbl assms(2) d ds is_digit_not_special [OF d]
    by simp
qed

lemma py_int_py_str: "py_int (py_str i) = Some i"
proof (cases "i < 0")
  case True
  then show ?thesis
    using py_int_digits(2) [of "dec_digits (nat (- i))"] dec_digits_all [of "nat (- i)"]
    by (simp add: py_str_def digits_value_dec)
next
  case False
  then show ?thesis
    using py_int_digits(1) [of "dec_digits (nat i)"] dec_digits_all [of "nat i"]
    by (simp add: py_str_def digits_value_dec)
qed

lemma py_str_chars:
  "CHR ''m'' \<notin> set (py_str i)" "CHR '';'' \<notin> set (py_str i)" "py_str i \<noteq> []"
  using dec_digits_all [of "nat i"] dec_digits_all [of "nat (- i)"]
  by (auto simp: py_str_def list_all_iff dest: is_digit_not_special)

lemma py_split_field:
  "sep \<notin> set a \<Longrightarrow> py_split sep (a @ sep # b) = a # py_split sep b"
  by (induction a) auto

lemma py_split_last: "sep \<notin> set a \<Longrightarrow> py_split sep a = [a]"
  by (induction a) auto

lemma sgr_parts_ansi256: "sgr_parts (''38;5;'' @ py_str idx) = [''38'', ''5'', py_str idx]"
  by (simp add: sgr_parts_def py_split_last py_str_chars)

lemma sgr_parts_truecolor:
  "sgr_parts (''38;2;'' @ py_str r @ '';'' @ py_str g @ '';'' @ py_str b) =
   [''38'', ''2'', py_str r, py_str g, py_str b]"
  by (simp add: sgr_parts_def py_split_field py_split_last py_str_chars)

lemma apply_sgr_ansi256: "apply_sgr [''38'', ''5'', py_str idx] active = Some (Ansi256 idx)"
  by (simp add: apply_sgr_def py_int_py_str)

lemma apply_sgr_truecolor:
  "apply_sgr [''38'', ''2'', py_str r, py_str g, py_str b] active = Some (Truecolor r g b)"
  by (simp add: apply_sgr_def py_int_py_str)

lemma parse_code_ansi256:
  "parse_loop (color_code_from_fg (Some (Ansi256 idx)) @ rest) active chars fgs =
   parse_loop rest (Some (Ansi256 idx)) chars fgs"
proof -
  have m: "CHR ''m'' \<notin> set (''38;5;'' @ py_str idx)"
    by (simp add: py_str_chars)
  have "color_code_from_fg (Some (Ansi256 idx)) @ rest =
        ESC # CHR ''['' # (''38;5;'' @ py_str idx) @ CHR ''m'' # rest"
    by (simp add: color_code_from_fg_def)
  then show ?thesis
    using parse_loop_seq [OF m, of rest active chars fgs]
    by (simp only: sgr_parts_ansi256 apply_sgr_ansi256)
qed

lemma parse_code_truecolor:
  "parse_loop (color_code_from_fg (Some (Truecolor r g b)) @ rest) active chars fgs =
   parse_loop rest (Some (Truecolor r g b)) chars fgs"
proof -
  let ?p = "''38;2;'' @ py_str r @ '';'' @ py_str g @ '';'' @ py_str b"
  have m: "CHR ''m'' \<notin> set ?p"
    by (simp add: py_str_chars)
  have "color_code_from_fg (Some (Truecolor r g b)) @ rest =
        ESC # CHR ''['' # ?p @ CHR ''m'' # rest"
    by (simp add: color_code_from_fg_def)
  then show ?thesis
    using parse_loop_seq [OF m, of rest active chars fgs]
    by (simp only: sgr_parts_truecolor apply_sgr_truecolor)
qed

lemma parse_code_reset:
  "parse_loop (RESET @ rest) active chars fgs = parse_loop rest None chars fgs"
proof -
  have "parse_loop (ESC # CHR ''['' # ''0'' @ CHR ''m'' # rest) active chars fgs =
        parse_loop rest (apply_sgr (sgr_parts ''0'') active) chars fgs"
    by (rule parse_loop_seq) simp
  then show ?thesis by (simp add: RESET_def sgr_parts_zero)
qed

text \<open>
  C7 (confirmed). The decoder recognises what the encoder emits: a line made of
  \<open>color_code_from_fg c\<close> for a colour \<open>c\<close> other than \<open>None\<close>, followed by plain glyphs (no
  ESC, no newline), decodes to exactly these glyphs, each paired with \<open>c\<close>; and the reset
  code followed by plain glyphs decodes to these glyphs, each paired with \<open>None\<close>. This
  holds from every state of the scan, in particular for a whole line.
\<close>

theorem encode_decode_roundtrip:
  assumes "ESC \<notin> set gs" and "NEWLINE \<notin> set gs"
  shows "parse_loop (color_code_from_fg (Some c) @ gs) active chars fgs =
           (chars @ gs, fgs @ replicate (length gs) (Some c))
       \<and> parse_loop (RESET @ gs) active chars fgs =
           (chars @ gs, fgs @ replicate (length gs) None)
       \<and> parse_ansi_line (color_code_from_fg (Some c) @ gs) = (gs, replicate (length gs) (Some c))
       \<and> parse_ansi_line (RESET @ gs) = (gs, replicate (length gs) None)"
proof -
  have plain: "\<And>a cs fs. parse_loop gs a cs fs = (cs @ gs, fs @ replicate (length gs) a)"
    using parse_loop_plain [OF assms, of "[]"] by (simp add: parse_loop.simps(1))
  have code: "\<And>a cs fs. parse_loop (color_code_from_fg (Some c) @ gs) a cs fs =
      parse_loop gs (Some c) cs fs"
    by (cases c) (simp_all only: parse_code_ansi256 parse_code_truecolor)
  show ?thesis
    by (simp add: parse_ansi_line_def code parse_code_reset plain)
qed


theorem encode_decode_roundtrip_witness:
  "ESC \<notin> set ''xy'' \<and> NEWLINE \<notin> set ''xy''
   \<and> parse_ansi_line (color_code_from_fg (Some (Truecolor 1 2 3)) @ ''xy'') =
       (''xy'', [Some (Truecolor 1 2 3), Some (Truecolor 1 2 3)])
   \<and> parse_loop (RESET @ ''xy'') (Some (Ansi256 7)) [] [] = (''xy'', [None, None])"
proof -
  have h1: "ESC \<notin> set ''xy''" and h2: "NEWLINE \<notin> set ''xy''"
    by (simp_all add: ESC_def NEWLINE_def)
  from encode_decode_roundtrip [OF h1 h2, of "Truecolor 1 2 3" "Some (Ansi256 7)" "[]" "[]"] h1 h2
  show ?thesis by simp
qed

section \<open>The range of decoded colours\<close>

lemma sgr_seqs_other:
  assumes "ch \<noteq> ESC \<or> rest = [] \<or> hd rest \<noteq> CHR ''[''"
  shows "sgr_seqs (ch # rest) = sgr_seqs rest"
  using assms by (subst sgr_seqs.simps) auto

lemma sgr_seqs_intro:
  assumes "dropWhile not_m body \<noteq> []"
  shows "sgr_seqs (ESC # CHR ''['' # body) =
         sgr_parts (takeWhile not_m body) # sgr_seqs (tl (dropWhile not_m body))"
  using assms by (subst sgr_seqs.simps) auto

lemma apply_sgr_in_range:
  assumes "\<forall>p\<in>set parts. field_ok p" and "fg_in_range active"
  shows "fg_in_range (apply_sgr parts active)"
proof -
  have nth: "\<And>k. k < length parts \<Longrightarrow> field_ok (parts ! k)"
    using assms(1) by simp
  show ?thesis
  proof (cases "parts = [''0'']")
    case True
    then show ?thesis by (simp add: apply_sgr_def fg_in_range_def)
  next
    case False
    show ?thesis
    proof (cases "length parts \<ge> 3 \<and> parts ! 0 = ''38'' \<and> parts ! 1 = ''5''")
      case True
      then have "field_ok (parts ! 2)" using nth by simp
      then show ?thesis using True False assms(2)
        by (auto simp: apply_sgr_def fg_in_range_def field_ok_def split: option.splits)
    next
      case n5: False
      show ?thesis
      proof (cases "length parts \<ge> 5 \<and> parts ! 0 = ''38'' \<and> parts ! 1 = ''2''")
        case True
        then have "field_ok (parts ! 2)" "field_ok (parts ! 3)" "field_ok (parts ! 4)"
          using nth by simp_all
        then show ?thesis using True False n5 assms(2)
          by (auto simp: apply_sgr_def fg_in_range_def field_ok_def split: option.splits)
      next
        case False
        then show ?thesis using n5 \<open>parts \<noteq> [''0'']\<close> assms(2)
          by (auto simp: apply_sgr_def)
      qed
    qed
  qed
qed

lemma parse_loop_in_range:
  assumes "\<forall>parts\<in>set (sgr_seqs line). \<forall>p\<in>set parts. field_ok p"
    and "fg_in_range active" and "\<forall>c\<in>set fgs. fg_in_range c"
  shows "\<forall>c\<in>set (snd (parse_loop line active chars fgs)). fg_in_range c"
  using assms
proof (induction line active chars fgs rule: parse_loop.induct)
  case (1 active chars fgs)
  then show ?case by (simp add: parse_loop.simps(1))
next
  case (2 ch rest active chars fgs)
  show ?case
  proof (cases "ch = ESC \<and> rest \<noteq> [] \<and> hd rest = CHR ''[''")
    case True
    then obtain body where r: "rest = CHR ''['' # body" and ch: "ch = ESC"
      by (cases rest) auto
    show ?thesis
    proof (cases "dropWhile not_m body = []")
      case True
      then show ?thesis using r ch "2.prems"(3) by (simp add: parse_loop_break)
    next
      case False
      have seqs: "sgr_seqs (ch # rest) =
          sgr_parts (takeWhile not_m body) # sgr_seqs (tl (dropWhile not_m body))"
        using False r ch by (simp add: sgr_seqs_intro)
      have a: "fg_in_range (apply_sgr (sgr_parts (takeWhile not_m body)) active)"
        using "2.prems"(1,2) seqs by (intro apply_sgr_in_range) simp_all
      have "\<forall>c\<in>set (snd (parse_loop (tl (dropWhile not_m (tl rest)))
               (apply_sgr (sgr_parts (takeWhile not_m (tl rest))) active) chars fgs)).
             fg_in_range c"
        using "2.IH"(1) True False r a "2.prems"(1,3) seqs by simp
      then show ?thesis using False r ch by (simp add: parse_loop_intro)
    qed
  next
    case False
    then have nohd: "ch \<noteq> ESC \<or> rest = [] \<or> hd rest \<noteq> CHR ''[''" by auto
    have seqs: "sgr_seqs (ch # rest) = sgr_seqs rest"
      using nohd by (rule sgr_seqs_other)
    show ?thesis
    proof (cases "ch = NEWLINE")
      case True
      then show ?thesis using False "2.IH"(3) "2.prems" seqs
        by (simp add: parse_loop_newline)
    next
      case nl: False
      have "\<forall>c\<in>set (snd (parse_loop rest active (chars @ [ch]) (fgs @ [active]))). fg_in_range c"
        using "2.IH"(2) [OF False nl] "2.prems" seqs by simp
      then show ?thesis using parse_loop_glyph [OF nohd nl] by simp
    qed
  qed
qed

text \<open>
  C5 (corrected). The decoder checks no range: a colour it produces is \<open>None\<close> or carries
  the integers that \<open>int\<close> reads from the fields of a sequence, whatever their size. The
  components are all in 0 .. 255 when, in every terminated sequence of the line, every
  field that \<open>int\<close> accepts has a value in 0 .. 255.
\<close>

theorem colors_in_range_if_fields:
  assumes "\<forall>parts\<in>set (sgr_seqs line). \<forall>p\<in>set parts. field_ok p"
  shows "\<forall>c\<in>set (snd (parse_ansi_line line)). fg_in_range c"
  unfolding parse_ansi_line_def
  using assms by (intro parse_loop_in_range) (simp_all add: fg_in_range_def)

theorem colors_in_range_if_fields_witness:
  "snd (parse_ansi_line (ESC # ''[38;2;0;128;255mA'')) = [Some (Truecolor 0 128 255)]
   \<and> list_all fg_in_range (snd (parse_ansi_line (ESC # ''[38;2;0;128;255mA'')))"
proof -
  have s: "sgr_seqs (ESC # ''[38;2;0;128;255mA'') = [[''38'', ''2'', ''0'', ''128'', ''255'']]"
    by code_simp
  have h: "\<forall>parts\<in>set (sgr_seqs (ESC # ''[38;2;0;128;255mA'')). \<forall>p\<in>set parts. field_ok p"
    unfolding s by code_simp
  have p: "snd (parse_ansi_line (ESC # ''[38;2;0;128;255mA'')) = [Some (Truecolor 0 128 255)]"
    by code_simp
  from colors_in_range_if_fields [OF h] p show ?thesis
    by (simp add: list_all_iff)
qed

text \<open>C5, as stated, fails: \<open>ESC [ 38;5;999 m\<close> gives the colour \<open>('ansi256', 999)\<close>.\<close>

theorem decode_range_counterexample:
  "parse_ansi_line (ESC # ''[38;5;999mA'') = (''A'', [Some (Ansi256 999)])
   \<and> \<not> fg_in_range (Some (Ansi256 999))"
  by code_simp



section \<open>Properties of the resampler\<close>

lemma float_to_int_nonneg: "0 \<le> x \<Longrightarrow> 0 \<le> float_to_int x"
  by (simp add: float_to_int_def)

lemma src_index_bounds:
  assumes "0 < n" and "0 < s"
  shows "0 \<le> src_index s n k" and "src_index s n k < int n"
proof -
  have "0 \<le> (of_nat k :: rat) / s" using assms(2) by simp
  then have "0 \<le> float_to_int (of_nat k / s)" by (rule float_to_int_nonneg)
  then show "0 \<le> src_index s n k" using assms(1) by (simp add: src_index_def)
  show "src_index s n k < int n" by (simp add: src_index_def)
qed

lemma py_index_in_range: "0 \<le> i \<Longrightarrow> i < int (length xs) \<Longrightarrow> py_index xs i = Inr (xs ! nat i)"
  by (simp add: py_index_def)

lemma py_index_Nil: "py_index [] i = Inl IndexError"
  by (simp add: py_index_def)

lemma scale_cols_eq:
  assumes "length fgs_row = length chars_row" and "chars_row \<noteq> []" and "0 < s"
  shows "scale_cols s chars_row fgs_row cols parts prev =
         Inr (parts @ emit_cells prev (map (cell_at s chars_row fgs_row) cols))"
proof (induction cols arbitrary: parts prev)
  case Nil
  then show ?case by simp
next
  case (Cons co cols)
  let ?cs = "src_index s (length chars_row) co"
  have n: "0 < length chars_row" using assms(2) by simp
  have b: "0 \<le> ?cs" "?cs < int (length chars_row)"
    using src_index_bounds [OF n assms(3)] by simp_all
  have f: "py_index fgs_row ?cs = Inr (fgs_row ! nat ?cs)"
    using b assms(1) by (simp add: py_index_in_range)
  have c: "py_index chars_row ?cs = Inr (chars_row ! nat ?cs)"
    using b by (simp add: py_index_in_range)
  have cs: "min (int (length chars_row) - 1) (float_to_int (of_nat co / s)) = ?cs"
    by (simp add: src_index_def)
  have cell: "fst (cell_at s chars_row fgs_row co) = fgs_row ! nat ?cs"
    "snd (cell_at s chars_row fgs_row co) = chars_row ! nat ?cs"
    by (simp_all add: cell_at_def)
  show ?case
    by (simp only: scale_cols.simps Let_def cs f c sum.case Cons.IH)
       (simp add: cell)
qed

lemma scale_rows_eq:
  assumes "parsed \<noteq> []" and "src_h = int (length parsed)" and "0 < s"
    and "\<forall>row\<in>set parsed. length (snd row) = length (fst row)"
  shows "scale_rows s parsed src_h ros new_lines =
         Inr (new_lines @ map (\<lambda>ro. row_out s (parsed ! nat (src_index s (length parsed) ro))) ros)"
proof (induction ros arbitrary: new_lines)
  case Nil
  then show ?case by simp
next
  case (Cons ro ros)
  let ?rs = "src_index s (length parsed) ro"
  let ?row = "parsed ! nat ?rs"
  have n: "0 < length parsed" using assms(1) by simp
  have b: "0 \<le> ?rs" "?rs < int (length parsed)"
    using src_index_bounds [OF n assms(3)] by simp_all
  have r: "py_index parsed ?rs = Inr ?row"
    using b by (simp add: py_index_in_range)
  have rs: "min (src_h - 1) (float_to_int (of_nat ro / s)) = ?rs"
    using assms(2) by (simp add: src_index_def)
  have mem: "?row \<in> set parsed" using b by simp
  then have len: "length (snd ?row) = length (fst ?row)" using assms(4) by blast
  show ?case
  proof (cases "fst ?row = []")
    case True
    then show ?thesis
      by (simp only: scale_rows.simps Let_def rs r sum.case Cons.IH)
         (simp add: row_out_def)
  next
    case False
    have cols: "\<And>cols. scale_cols s (fst ?row) (snd ?row) cols [] None =
        Inr ([] @ emit_cells None (map (cell_at s (fst ?row) (snd ?row)) cols))"
      using len False assms(3) by (rule scale_cols_eq)
    show ?thesis
      using False
      by (simp only: scale_rows.simps Let_def rs r sum.case Cons.IH cols)
         (simp add: row_out_def row_parts_def)
  qed
qed

lemma scale_rows_empty:
  "scale_rows s [] src_h (ro # ros) new_lines = Inl IndexError"
  by (simp add: py_index_Nil)

lemma effective_scale_pos: "0 < effective_scale width height scale fit_to_terminal tsize"
  by (auto simp: effective_scale_def Let_def not_le max_def)

lemma effective_scale_no_fit:
  "effective_scale width height scale False tsize = max (1 / 100) scale"
  by (simp add: effective_scale_def)

lemma target_height_pos: "0 < nat (max 1 (float_to_int x))"
  by simp

lemma scale_lines_nonempty:
  assumes "lines \<noteq> []"
    and "\<not> \<bar>effective_scale width height scale fit_to_terminal tsize - 1\<bar> < 1 / 1000000"
  shows "scale_lines lines width height scale fit_to_terminal tsize =
         Inr (map (\<lambda>ro. row_out (effective_scale width height scale fit_to_terminal tsize)
                     (parse_ansi_line (lines ! nat (src_index
                        (effective_scale width height scale fit_to_terminal tsize) (length lines) ro))))
               [0..<nat (max 1 (float_to_int (of_nat (length lines)
                     * effective_scale width height scale fit_to_terminal tsize)))])"
proof -
  let ?s = "effective_scale width height scale fit_to_terminal tsize"
  let ?parsed = "map parse_ansi_line lines"
  have ne: "?parsed \<noteq> []" using assms(1) by simp
  have lens: "\<forall>row\<in>set ?parsed. length (snd row) = length (fst row)"
    by (auto simp: parse_ansi_line_lengths)
  have rows: "\<And>ros. scale_rows ?s ?parsed (int (length ?parsed)) ros [] =
      Inr ([] @ map (\<lambda>ro. row_out ?s (?parsed ! nat (src_index ?s (length ?parsed) ro))) ros)"
    using ne refl effective_scale_pos lens by (rule scale_rows_eq)
  have nth: "\<And>ro. ?parsed ! nat (src_index ?s (length lines) ro) =
      parse_ansi_line (lines ! nat (src_index ?s (length lines) ro))"
  proof -
    fix ro
    have "0 < length lines" using assms(1) by simp
    from src_index_bounds [OF this effective_scale_pos]
    have "nat (src_index ?s (length lines) ro) < length lines"
      by (metis nat_less_iff)
    then show "?parsed ! nat (src_index ?s (length lines) ro) =
      parse_ansi_line (lines ! nat (src_index ?s (length lines) ro))" by simp
  qed
  have h: "int (length lines) \<noteq> 0" using assms(1) by simp
  show ?thesis
    unfolding scale_lines_def Let_def
    using assms(2) ne h rows nth by simp
qed

lemma scale_lines_empty:
  assumes "\<not> \<bar>effective_scale width height scale fit_to_terminal tsize - 1\<bar> < 1 / 1000000"
  shows "scale_lines [] width height scale fit_to_terminal tsize = Inl IndexError"
proof -
  let ?s = "effective_scale width height scale fit_to_terminal tsize"
  let ?n = "nat (max 1 (float_to_int (of_int (max 1 height) * ?s)))"
  have "0 < ?n" by (rule target_height_pos)
  then have "[0..<?n] = 0 # [Suc 0..<?n]" by (rule upt_conv_Cons)
  then have rows: "scale_rows ?s [] (max 1 height) [0..<?n] [] = Inl IndexError"
    by (simp only: scale_rows_empty)
  have "scale_lines [] width height scale fit_to_terminal tsize =
        scale_rows ?s [] (max 1 height) [0..<?n] []"
    unfolding scale_lines_def Let_def
    by (simp only: assms if_False list.map list.size of_nat_0 if_True refl)
  then show ?thesis using rows by simp
qed

lemma nonempty_frame_returns:
  assumes "lines \<noteq> []"
  shows "\<exists>out. scale_lines lines width height scale fit_to_terminal tsize = Inr out"
proof (cases "\<bar>effective_scale width height scale fit_to_terminal tsize - 1\<bar> < 1 / 1000000")
  case True
  then show ?thesis by (simp add: scale_lines_def)
next
  case False
  with assms show ?thesis by (simp add: scale_lines_nonempty)
qed

text \<open>
  C1 (code bug). With an empty list of lines and a scale that is not the identity,
  \<open>scale_lines\<close> does not return: lines 96 to 99 replace the source height 0 by
  \<open>max(1, height)\<close>, the target height is at least 1, and the first turn of the outer loop
  subscripts the empty list \<open>parsed\<close>, which raises IndexError. Here the declared size is
  80 by 24 and the scale is 2. (\<open>scale_lines_empty\<close> is the general fact;
  \<open>nonempty_frame_returns\<close> shows that with at least one line the function returns,
  whatever the rows and the scale are, in exact arithmetic: the OverflowError of \<open>int\<close> on
  an infinite float is outside this model.)
\<close>

theorem empty_frame_raises:
  "scale_lines [] 80 24 2 False (80, 24) = Inl IndexError"
  by (rule scale_lines_empty) (simp add: effective_scale_def)

text \<open>
  C8 (confirmed). Whenever the effective scale \<open>s\<close> is within \<open>1e-6\<close> of 1, which is the
  test \<open>abs(s - 1.0) < 1e-6\<close> of line 90, \<open>scale_lines\<close> returns its argument \<open>lines\<close>
  as it is: the lines are not decoded, so even a line that decoding and encoding would
  change comes back unchanged. In non-fit mode the effective scale is \<open>max(0.01, scale)\<close>.
\<close>

theorem identity_fast_path:
  assumes "\<bar>effective_scale width height scale fit_to_terminal tsize - 1\<bar> < 1 / 1000000"
  shows "scale_lines lines width height scale fit_to_terminal tsize = Inr lines
       \<and> effective_scale width height scale False tsize = max (1 / 100) scale"
  using assms by (simp add: scale_lines_def effective_scale_no_fit)

theorem identity_fast_path_witness:
  "\<bar>effective_scale 80 24 (1 + 1 / 10000000) False (80, 24) - 1\<bar> < 1 / 1000000
   \<and> scale_lines [ESC # ''[38'', ''a''] 80 24 (1 + 1 / 10000000) False (80, 24) =
       Inr [ESC # ''[38'', ''a'']"
proof -
  have h: "\<bar>effective_scale 80 24 (1 + 1 / 10000000) False (80, 24) - 1\<bar> < 1 / 1000000"
    by (simp add: effective_scale_def)
  from identity_fast_path [OF h] h show ?thesis by simp
qed

subsection \<open>Scale factor 2\<close>

lemma float_to_int_half: "float_to_int (of_nat k / 2) = int (k div 2)"
proof -
  have "\<lfloor>(of_nat k :: rat) / of_nat 2\<rfloor> = of_nat (k div 2)"
    by (rule floor_divide_of_nat_eq)
  then show ?thesis by (simp add: float_to_int_def)
qed

lemma float_to_int_double: "float_to_int (of_nat n * 2) = 2 * int n"
proof -
  have "(of_nat n * 2 :: rat) = of_int (2 * int n)" by simp
  then have "\<lfloor>of_nat n * 2 :: rat\<rfloor> = 2 * int n" by (simp only: floor_of_int)
  then show ?thesis by (simp add: float_to_int_def)
qed

lemma src_index_two: "k < 2 * n \<Longrightarrow> src_index 2 n k = int (k div 2)"
  by (auto simp: src_index_def float_to_int_half)

lemma cell_at_two:
  "k < 2 * length chars_row \<Longrightarrow>
   cell_at 2 chars_row fgs_row k = (fgs_row ! (k div 2), chars_row ! (k div 2))"
  by (simp add: cell_at_def src_index_two)

lemma cells_two_upto:
  "n \<le> length chars_row \<Longrightarrow>
   map (cell_at 2 chars_row fgs_row) [0..<2 * n] =
   concat (map (\<lambda>i. [(fgs_row ! i, chars_row ! i), (fgs_row ! i, chars_row ! i)]) [0..<n])"
proof (induction n)
  case 0
  then show ?case by simp
next
  case (Suc n)
  have "[0..<2 * Suc n] = [0..<2 * n] @ [2 * n, Suc (2 * n)]" by simp
  then have "map (cell_at 2 chars_row fgs_row) [0..<2 * Suc n] =
      map (cell_at 2 chars_row fgs_row) [0..<2 * n]
      @ [cell_at 2 chars_row fgs_row (2 * n), cell_at 2 chars_row fgs_row (Suc (2 * n))]"
    by (simp only: map_append list.map)
  moreover have "cell_at 2 chars_row fgs_row (2 * n) = (fgs_row ! n, chars_row ! n)"
    using Suc.prems by (simp add: cell_at_two)
  moreover have "cell_at 2 chars_row fgs_row (Suc (2 * n)) = (fgs_row ! n, chars_row ! n)"
    using Suc.prems by (simp add: cell_at_two)
  ultimately show ?case using Suc by simp
qed

lemma zip_as_nth:
  assumes "length fgs_row = length chars_row"
  shows "map (\<lambda>i. (fgs_row ! i, chars_row ! i)) [0..<length chars_row] = zip fgs_row chars_row"
  using assms by (intro nth_equalityI) simp_all

lemma cells_two:
  assumes "length fgs_row = length chars_row"
  shows "map (cell_at 2 chars_row fgs_row) [0..<2 * length chars_row] =
         concat (map (\<lambda>x. [x, x]) (zip fgs_row chars_row))"
proof -
  have "concat (map (\<lambda>i. [(fgs_row ! i, chars_row ! i), (fgs_row ! i, chars_row ! i)])
          [0..<length chars_row]) =
        concat (map (\<lambda>x. [x, x]) (map (\<lambda>i. (fgs_row ! i, chars_row ! i)) [0..<length chars_row]))"
    by (simp add: comp_def)
  then show ?thesis
    using cells_two_upto [of "length chars_row" chars_row fgs_row] zip_as_nth [OF assms]
    by simp
qed

lemma glyphs_of_emit_cells: "glyphs_of (emit_cells prev cells) = map snd cells"
  by (induction cells arbitrary: prev) simp_all

lemma codes_of_emit_cells:
  "length (codes_of (emit_cells prev cells)) = length (remdups_adj (prev # map fst cells)) - 1"
proof (induction cells arbitrary: prev)
  case Nil
  then show ?case by simp
next
  case (Cons c cells)
  have pos: "0 < length (remdups_adj (fst c # map fst cells))"
    by simp
  show ?case
  proof (cases "fst c = prev")
    case True
    then show ?thesis using Cons [of prev] by simp
  next
    case False
    then show ?thesis using Cons [of "fst c"] pos by simp
  qed
qed

lemma remdups_adj_doubled:
  "remdups_adj (p # concat (map (\<lambda>x. [x, x]) xs)) = remdups_adj (p # xs)"
proof (induction xs arbitrary: p)
  case Nil
  then show ?case by simp
next
  case (Cons x xs)
  then show ?case by (cases "p = x") simp_all
qed

lemma runs_from_None:
  assumes "fgs_row \<noteq> []"
  shows "length (remdups_adj (None # fgs_row)) - 1 =
         color_runs fgs_row - (if hd fgs_row = None then 1 else 0)"
proof -
  obtain f fs where "fgs_row = f # fs" using assms by (cases fgs_row) auto
  then show ?thesis by (cases "f = None") (auto simp: color_runs_def)
qed

lemma row_parts_two:
  assumes "length fgs_row = length chars_row" and "chars_row \<noteq> []"
  shows "row_parts 2 (chars_row, fgs_row) =
         emit_cells None (concat (map (\<lambda>x. [x, x]) (zip fgs_row chars_row)))"
proof -
  have "nat (max 1 (float_to_int (of_nat (length chars_row) * 2))) = 2 * length chars_row"
    unfolding float_to_int_double using assms(2) by (cases chars_row) simp_all
  then show ?thesis using cells_two [OF assms(1)] by (simp add: row_parts_def)
qed

lemma map_snd_doubled: "map snd (concat (map (\<lambda>x. [x, x]) cells)) = concat (map (\<lambda>c. [c, c]) (map snd cells))"
  by (induction cells) simp_all

lemma map_fst_doubled: "map fst (concat (map (\<lambda>x. [x, x]) cells)) = concat (map (\<lambda>c. [c, c]) (map fst cells))"
  by (induction cells) simp_all

lemma length_doubled: "length (concat (map (\<lambda>c. [c, c]) xs)) = 2 * length xs"
  by (induction xs) simp_all

lemma row_parts_two_props:
  assumes "length fgs_row = length chars_row" and "chars_row \<noteq> []"
  shows "glyphs_of (row_parts 2 (chars_row, fgs_row)) = concat (map (\<lambda>c. [c, c]) chars_row)"
    and "length (codes_of (row_parts 2 (chars_row, fgs_row))) =
         color_runs fgs_row - (if hd fgs_row = None then 1 else 0)"
    and "scale_cols 2 chars_row fgs_row [0..<2 * length chars_row] [] None =
         Inr (row_parts 2 (chars_row, fgs_row))"
proof -
  have ne: "fgs_row \<noteq> []" using assms by auto
  show "glyphs_of (row_parts 2 (chars_row, fgs_row)) = concat (map (\<lambda>c. [c, c]) chars_row)"
    using assms by (simp add: row_parts_two glyphs_of_emit_cells map_snd_doubled)
  show "length (codes_of (row_parts 2 (chars_row, fgs_row))) =
         color_runs fgs_row - (if hd fgs_row = None then 1 else 0)"
    using assms runs_from_None [OF ne]
    by (simp add: row_parts_two codes_of_emit_cells map_fst_doubled remdups_adj_doubled)
  have "scale_cols 2 chars_row fgs_row [0..<2 * length chars_row] [] None =
        Inr ([] @ emit_cells None (map (cell_at 2 chars_row fgs_row) [0..<2 * length chars_row]))"
    using assms by (intro scale_cols_eq) simp_all
  then show "scale_cols 2 chars_row fgs_row [0..<2 * length chars_row] [] None =
         Inr (row_parts 2 (chars_row, fgs_row))"
    using assms by (simp add: row_parts_two cells_two)
qed

lemma effective_scale_two: "effective_scale width height 2 False tsize = 2"
  by (simp add: effective_scale_def)

lemma scale_lines_two:
  assumes "lines \<noteq> []"
  shows "scale_lines lines width height 2 False tsize =
         Inr (map (\<lambda>ro. row_out 2 (parse_ansi_line (lines ! (ro div 2)))) [0..<2 * length lines])"
proof -
  have far: "\<not> \<bar>effective_scale width height 2 False tsize - 1\<bar> < 1 / 1000000"
    by (simp add: effective_scale_two)
  have n: "nat (max 1 (float_to_int (of_nat (length lines) * 2))) = 2 * length lines"
    unfolding float_to_int_double using assms by (cases lines) simp_all
  have "map (\<lambda>ro. row_out 2 (parse_ansi_line (lines ! nat (src_index 2 (length lines) ro))))
          [0..<2 * length lines] =
        map (\<lambda>ro. row_out 2 (parse_ansi_line (lines ! (ro div 2)))) [0..<2 * length lines]"
    by (rule map_cong) (simp_all add: src_index_two)
  then show ?thesis
    using scale_lines_nonempty [OF assms far] by (simp add: effective_scale_two n)
qed

text \<open>
  C3 (corrected). With \<open>scale = 2\<close> and fit off, \<open>scale_lines\<close> returns two target rows for
  each source row. For a source row of width \<open>W \<ge> 1\<close> both are the join of the parts that
  the inner loop builds, followed by the trailing reset; these parts hold \<open>2 * W\<close> glyphs,
  each source glyph twice in a row. The cursor \<open>prev_fg\<close> starts at \<open>None\<close>, which is also
  the colour of an uncoloured cell: the number of colour codes among the parts is the
  number of colour runs of the source row when its first cell has a colour, and one less
  when the colour of its first cell is \<open>None\<close> (no reset is emitted for the first run).
\<close>

theorem scale_two_row:
  assumes "rs < length lines" and "parse_ansi_line (lines ! rs) = (chars_row, fgs_row)"
    and "chars_row \<noteq> []"
  shows "\<exists>out. scale_lines lines width height 2 False tsize = Inr out
      \<and> length out = 2 * length lines
      \<and> out ! (2 * rs) = join_parts (row_parts 2 (chars_row, fgs_row) @ [Code RESET])
      \<and> out ! (2 * rs + 1) = join_parts (row_parts 2 (chars_row, fgs_row) @ [Code RESET])
      \<and> scale_cols 2 chars_row fgs_row [0..<2 * length chars_row] [] None =
          Inr (row_parts 2 (chars_row, fgs_row))
      \<and> length (glyphs_of (row_parts 2 (chars_row, fgs_row))) = 2 * length chars_row
      \<and> glyphs_of (row_parts 2 (chars_row, fgs_row)) = concat (map (\<lambda>c. [c, c]) chars_row)
      \<and> length (codes_of (row_parts 2 (chars_row, fgs_row))) =
          color_runs fgs_row - (if hd fgs_row = None then 1 else 0)"
proof -
  let ?out = "map (\<lambda>ro. row_out 2 (parse_ansi_line (lines ! (ro div 2)))) [0..<2 * length lines]"
  have ne: "lines \<noteq> []" using assms(1) by auto
  have len: "length fgs_row = length chars_row"
    using parse_ansi_line_lengths [of "lines ! rs"] assms(2) by simp
  have row: "row_out 2 (chars_row, fgs_row) =
      join_parts (row_parts 2 (chars_row, fgs_row) @ [Code RESET])"
    using assms(3) by (simp add: row_out_def)
  have a: "?out ! (2 * rs) = row_out 2 (chars_row, fgs_row)"
    using assms(1,2) by simp
  have b: "?out ! (2 * rs + 1) = row_out 2 (chars_row, fgs_row)"
    using assms(1,2) by simp
  note props = row_parts_two_props [OF len assms(3)]
  have "scale_lines lines width height 2 False tsize = Inr ?out"
    using ne by (rule scale_lines_two)
  moreover have "length ?out = 2 * length lines" by simp
  ultimately show ?thesis
    using a b row props by (simp only: length_doubled) blast
qed


theorem scale_two_row_witness:
  "glyphs_of (row_parts 2 (''AB'', [Some (Ansi256 1), None])) = ''AABB''
   \<and> length (codes_of (row_parts 2 (''AB'', [Some (Ansi256 1), None]))) = 2
   \<and> scale_cols 2 ''AB'' [Some (Ansi256 1), None] [0..<2 * length ''AB''] [] None =
       Inr (row_parts 2 (''AB'', [Some (Ansi256 1), None]))"
proof -
  let ?lines = "[''x'', ESC # ''[38;5;1mA'' @ RESET @ ''B'']"
  have h: "1 < length ?lines" by simp
  have p: "parse_ansi_line (?lines ! 1) = (''AB'', [Some (Ansi256 1), None])"
    by code_simp
  have ne: "''AB'' \<noteq> []" by simp
  from scale_two_row [OF h p ne, of 80 24 "(80, 24)"] show ?thesis
    by (auto simp: color_runs_def)
qed

text \<open>C3, as stated, fails: the row \<open>A\<close> has one colour run, of colour \<open>None\<close>, and
  its target row \<open>AA\<close> followed by the trailing reset has no colour code before the glyphs:
  the first cell emits no transition.\<close>

theorem first_cell_reset_counterexample:
  "parse_ansi_line ''A'' = (''A'', [None])
   \<and> color_runs [None] = 1
   \<and> scale_cols 2 ''A'' [None] [0..<2] [] None = Inr [Glyph (CHR ''A''), Glyph (CHR ''A'')]
   \<and> codes_of [Glyph (CHR ''A''), Glyph (CHR ''A'')] = []
   \<and> scale_lines [''A''] 80 24 2 False (80, 24) = Inr [''AA'' @ RESET, ''AA'' @ RESET]"
  by code_simp





section \<open>Properties of the playback loop\<close>

lemma play_loop_returns:
  assumes "\<not> args_loop a" and "length frames - idx \<le> fuel" and "0 < fuel"
  shows "play_loop fuel frames a width height tsize idx st \<noteq> None"
  using assms
proof (induction fuel arbitrary: idx st)
  case 0
  then show ?case by simp
next
  case (Suc fuel)
  obtain r st1 where rf: "render_frame frames a width height tsize idx st = (r, st1)"
    by (cases "render_frame frames a width height tsize idx st") auto
  show ?case
  proof (cases r)
    case (Some e)
    then show ?thesis using rf by simp
  next
    case None
    show ?thesis
    proof (cases "idx + 1 \<ge> length frames")
      case True
      then show ?thesis using rf None Suc.prems(1) by simp
    next
      case False
      obtain r2 st2 where p: "pause st1 = (r2, st2)" by (cases "pause st1") auto
      have "play_loop fuel frames a width height tsize (idx + 1) st2 \<noteq> None"
        using Suc.IH [of "idx + 1" st2] Suc.prems False by simp
      then show ?thesis using rf None False p by (cases r2) simp_all
    qed
  qed
qed

lemma playback_returns:
  assumes "\<not> args_loop a" and "length frames \<le> fuel" and "0 < fuel"
  shows "playback fuel frames a width height tsize sigs \<noteq> None"
  using play_loop_returns [OF assms(1), of frames 0 fuel width height tsize
      "\<lparr>pending = sigs, written = []\<rparr>"] assms(2,3)
  by (auto simp: playback_def split: option.splits)

lemma playback_normal_exit:
  "playback 2 [Some [''ab''], Some [''cd'']] \<lparr>args_loop = False, args_scale = 1, args_fit = False\<rparr>
     2 1 (80, 24) [] =
   Some (None, [Write HOME, Write ''ab'', Write [NEWLINE], Flush,
                Write HOME, Write ''cd'', Write [NEWLINE], Flush,
                Write RESET, Write SHOW_CURSOR, Flush])"
  by code_simp

lemma playback_error_exit:
  "playback 2 [Some [''ab''], None] \<lparr>args_loop = False, args_scale = 2, args_fit = False\<rparr>
     2 1 (80, 24) [] =
   Some (Some (Error IndexError),
         [Write HOME, Write (''aabb'' @ RESET), Write [NEWLINE], Write (''aabb'' @ RESET),
          Write [NEWLINE], Flush, Write RESET, Write SHOW_CURSOR, Flush])"
  by code_simp

text \<open>
  C6 (confirmed). However the loop of the \<open>try\<close> block ends (after the last frame, by an
  interrupt at any of its steps, or by an error raised while rendering, such as the
  IndexError of \<open>scale_lines\<close> on an empty frame), \<open>playback\<close> ends with everything the
  loop wrote followed by the write of the reset code, the write of the show-cursor code
  and a flush; the interrupt is not raised again, an error is. So the last three operations
  of every run that ends are this cleanup, and without \<open>--loop\<close> every run ends, given
  fuel for one turn per frame.
\<close>

theorem playback_cleanup:
  "(play_loop fuel frames a width height tsize 0 \<lparr>pending = sigs, written = []\<rparr> = Some (r0, st) \<longrightarrow>
      playback fuel frames a width height tsize sigs =
        Some (if r0 = Some KeyboardInterrupt then None else r0,
              written st @ [Write RESET, Write SHOW_CURSOR, Flush]))
   \<and> (playback fuel frames a width height tsize sigs = Some (r, out) \<longrightarrow>
        (\<exists>pre. out = pre @ [Write RESET, Write SHOW_CURSOR, Flush]) \<and> r \<noteq> Some KeyboardInterrupt)
   \<and> (\<not> args_loop a \<and> length frames \<le> fuel \<and> 0 < fuel \<longrightarrow>
        (\<exists>r' out' pre. playback fuel frames a width height tsize sigs = Some (r', out')
           \<and> out' = pre @ [Write RESET, Write SHOW_CURSOR, Flush]))"
proof (intro conjI impI)
  assume "play_loop fuel frames a width height tsize 0 \<lparr>pending = sigs, written = []\<rparr> = Some (r0, st)"
  then show "playback fuel frames a width height tsize sigs =
        Some (if r0 = Some KeyboardInterrupt then None else r0,
              written st @ [Write RESET, Write SHOW_CURSOR, Flush])"
    by (simp add: playback_def)
next
  assume "playback fuel frames a width height tsize sigs = Some (r, out)"
  then show "\<exists>pre. out = pre @ [Write RESET, Write SHOW_CURSOR, Flush]"
    by (auto simp: playback_def split: option.splits prod.splits if_splits)
next
  assume "playback fuel frames a width height tsize sigs = Some (r, out)"
  then show "r \<noteq> Some KeyboardInterrupt"
    by (auto simp: playback_def split: option.splits prod.splits if_splits)
next
  assume h: "\<not> args_loop a \<and> length frames \<le> fuel \<and> 0 < fuel"
  then have "play_loop fuel frames a width height tsize 0 \<lparr>pending = sigs, written = []\<rparr> \<noteq> None"
    by (intro play_loop_returns) simp_all
  then obtain r1 st1 where
    "play_loop fuel frames a width height tsize 0 \<lparr>pending = sigs, written = []\<rparr> = Some (r1, st1)"
    by auto
  then have "playback fuel frames a width height tsize sigs =
        Some (if r1 = Some KeyboardInterrupt then None else r1,
              written st1 @ [Write RESET, Write SHOW_CURSOR, Flush])"
    by (simp add: playback_def)
  then show "\<exists>r' out' pre. playback fuel frames a width height tsize sigs = Some (r', out')
           \<and> out' = pre @ [Write RESET, Write SHOW_CURSOR, Flush]"
    by blast
qed

theorem playback_cleanup_witness:
  "playback 2 [Some [''ab''], Some [''cd'']] \<lparr>args_loop = False, args_scale = 1, args_fit = False\<rparr>
     2 1 (80, 24) [] =
   Some (None, [Write HOME, Write ''ab'', Write [NEWLINE], Flush,
                Write HOME, Write ''cd'', Write [NEWLINE], Flush,
                Write RESET, Write SHOW_CURSOR, Flush])
   \<and> play_loop 2 [Some [''ab''], Some [''cd'']] \<lparr>args_loop = False, args_scale = 1, args_fit = False\<rparr>
     2 1 (80, 24) 0 \<lparr>pending = [Quiet, Quiet, Quiet, Sigint], written = []\<rparr> =
     Some (Some KeyboardInterrupt, \<lparr>pending = [], written = [Write HOME, Write ''ab'']\<rparr>)
   \<and> playback 2 [Some [''ab''], Some [''cd'']] \<lparr>args_loop = False, args_scale = 1, args_fit = False\<rparr>
     2 1 (80, 24) [Quiet, Quiet, Quiet, Sigint] =
   Some (None, [Write HOME, Write ''ab'', Write RESET, Write SHOW_CURSOR, Flush])
   \<and> playback 2 [Some [''ab''], None] \<lparr>args_loop = False, args_scale = 2, args_fit = False\<rparr>
     2 1 (80, 24) [] =
   Some (Some (Error IndexError),
         [Write HOME, Write (''aabb'' @ RESET), Write [NEWLINE], Write (''aabb'' @ RESET),
          Write [NEWLINE], Flush, Write RESET, Write SHOW_CURSOR, Flush])"
proof -
  let ?frames = "[Some [''ab''], Some [''cd'']]"
  let ?a = "\<lparr>args_loop = False, args_scale = 1, args_fit = False\<rparr>"
  have e1: "playback 2 ?frames ?a 2 1 (80, 24) [] =
   Some (None, [Write HOME, Write ''ab'', Write [NEWLINE], Flush,
                Write HOME, Write ''cd'', Write [NEWLINE], Flush,
                Write RESET, Write SHOW_CURSOR, Flush])"
    by code_simp
  have e2: "play_loop 2 ?frames ?a 2 1 (80, 24) 0
      \<lparr>pending = [Quiet, Quiet, Quiet, Sigint], written = []\<rparr> =
     Some (Some KeyboardInterrupt, \<lparr>pending = [], written = [Write HOME, Write ''ab'']\<rparr>)"
    by code_simp
  have e3: "playback 2 [Some [''ab''], None]
      \<lparr>args_loop = False, args_scale = 2, args_fit = False\<rparr> 2 1 (80, 24) [] =
   Some (Some (Error IndexError),
         [Write HOME, Write (''aabb'' @ RESET), Write [NEWLINE], Write (''aabb'' @ RESET),
          Write [NEWLINE], Flush, Write RESET, Write SHOW_CURSOR, Flush])"
    by code_simp
  have h: "\<not> args_loop ?a \<and> length ?frames \<le> 2 \<and> (0::nat) < 2" by simp
  from playback_cleanup [where fuel = 2 and frames = ?frames and a = ?a and width = 2
      and height = 1 and tsize = "(80, 24)" and sigs = "[Quiet, Quiet, Quiet, Sigint]"
      and ?r0.0 = "Some KeyboardInterrupt"
      and st = "\<lparr>pending = [], written = [Write HOME, Write ''ab'']\<rparr>"] e2 h e1 e3
  show ?thesis by simp
qed


end
